theory Spec2Isabelle
  imports Main "HOL-Library.Word"
begin

section \<open>Bounded uniform sampling: \<open>sys/libkern/arc4random_uniform.c\<close>\<close>

text \<open>
  The C function under study:
  \<^verbatim>\<open>
  uint32_t
  arc4random_uniform(uint32_t limit)
  {
          uint64_t num = (uint64_t)arc4random() * (uint64_t)limit;
          if (__predict_false((uint32_t)(num) < limit)) {
                  uint32_t residue = (uint32_t)(-limit) % limit;
                  while ((uint32_t)(num) < residue)
                          num = (uint64_t)arc4random() * (uint64_t)limit;
          }
          return ((uint32_t)(num >> 32));
  }
  \<close>
  \<open>uint32_t\<close> and \<open>uint64_t\<close> are words of 32 and 64 bits, and
  \<open>__predict_false\<close> is a branch hint that leaves its argument unchanged. The generator
  \<open>arc4random()\<close> is external: it is modelled by the sequence of words it is going to
  hand out, together with a counter of the words handed out so far.
\<close>

subsection \<open>Data\<close>

type_synonym u32 = "32 word"
type_synonym u64 = "64 word"

text \<open>The only way the C code can fail: the \<open>%\<close> operator with a zero divisor.\<close>

datatype error = DivideByZero

text \<open>
  A source is the sequence of words that successive calls of \<open>arc4random()\<close>
  return; the state of the generator is the number of words drawn so far.
\<close>

type_synonym source = "nat \<Rightarrow> u32"

definition arc4random :: "source \<Rightarrow> nat \<Rightarrow> u32 \<times> nat" where
  "arc4random src n = (src n, Suc n)"

subsection \<open>The expressions of the function body\<close>

text \<open>\<open>(uint64_t)w * (uint64_t)limit\<close>, the value assigned to \<open>num\<close>.\<close>

definition num_of :: "u32 \<Rightarrow> u32 \<Rightarrow> u64" where
  "num_of w limit = ucast w * ucast limit"

text \<open>\<open>(uint32_t)(num)\<close>: the fraction part of the 32.32 fixed-point number.\<close>

definition fraction_part :: "u64 \<Rightarrow> u32" where
  "fraction_part num = ucast num"

text \<open>\<open>(uint32_t)(num >> 32)\<close>: the integer part, which is the value returned.\<close>

definition integer_part :: "u64 \<Rightarrow> u32" where
  "integer_part num = ucast (drop_bit 32 num)"

text \<open>
  \<open>(uint32_t)(-limit) % limit\<close>. The C operator traps on a zero divisor, which
  \<open>arc4random_uniform\<close> below checks at the place of the division; HOL's \<open>mod\<close>
  is total.
\<close>

definition residue :: "u32 \<Rightarrow> u32" where
  "residue limit = (- limit) mod limit"

text \<open>The guard of the \<open>if\<close>: the approximate test that enters the slow path.\<close>

definition slow_path :: "u32 \<Rightarrow> u64 \<Rightarrow> bool" where
  "slow_path limit num = (fraction_part num < limit)"

subsection \<open>The rejection loop and the function\<close>

text \<open>
  The \<open>while\<close> loop, on the loop variable \<open>num\<close> and the generator's counter. It has
  no bound on its iterations: not returning is the value \<open>None\<close>.
\<close>

partial_function (option) resample ::
  "source \<Rightarrow> u32 \<Rightarrow> u32 \<Rightarrow> u64 \<Rightarrow> nat \<Rightarrow> (u64 \<times> nat) option" where
  "resample src limit res num n =
     (if fraction_part num < res
      then resample src limit res (num_of (fst (arc4random src n)) limit)
             (snd (arc4random src n))
      else Some (num, n))"

text \<open>
  The whole call, started when \<open>n\<close> words have been drawn. The result is \<open>None\<close>
  when the call does not return, \<open>Some (Inl e)\<close> when it traps, and
  \<open>Some (Inr (v, n'))\<close> when it returns \<open>v\<close> and leaves the generator at \<open>n'\<close>.
\<close>

definition arc4random_uniform ::
  "source \<Rightarrow> u32 \<Rightarrow> nat \<Rightarrow> (error + u32 \<times> nat) option" where
  "arc4random_uniform src limit n =
     (let num = num_of (fst (arc4random src n)) limit;
          n1 = snd (arc4random src n)
      in if slow_path limit num
         then (if limit = 0 then Some (Inl DivideByZero)
               else (case resample src limit (residue limit) num n1 of
                       None \<Rightarrow> None
                     | Some (num', n2) \<Rightarrow> Some (Inr (integer_part num', n2))))
         else Some (Inr (integer_part num, n1)))"

text \<open>Observers of a call's outcome.\<close>

definition returned_value :: "(error + u32 \<times> nat) option \<Rightarrow> u32 option" where
  "returned_value r = (case r of Some (Inr (v, n)) \<Rightarrow> Some v | _ \<Rightarrow> None)"

definition surfaces_error :: "(error + u32 \<times> nat) option \<Rightarrow> bool" where
  "surfaces_error r = (case r of Some (Inl e) \<Rightarrow> True | _ \<Rightarrow> False)"

text \<open>Deterministic stub sources: one that replays a list and then repeats a word.\<close>

definition replay :: "u32 list \<Rightarrow> u32 \<Rightarrow> source" where
  "replay ws d n = (if n < length ws then ws ! n else d)"

section \<open>Reading the words as natural numbers\<close>

lemma unat_u32_less: "unat w < 4294967296" for w :: u32
  using unsigned_less [of w, where ?'a = nat] by simp

lemma unat_u64_less: "unat w < 18446744073709551616" for w :: u64
  using unsigned_less [of w, where ?'a = nat] by simp

lemma unat_ucast_u32_u64: "unat (ucast w :: u64) = unat w" for w :: u32
proof -
  have "unat w < 2 ^ 64"
    using unat_u32_less [of w] by simp
  then show ?thesis
    by (simp only: unsigned_ucast_eq take_bit_nat_eq_self len_bit0 len_num1)
       (simp add: take_bit_nat_eq_self)
qed

text \<open>The 64-bit multiplication of two 32-bit operands never wraps.\<close>

lemma unat_num_of: "unat (num_of w limit) = unat w * unat limit"
proof -
  have "unat w * unat limit < 4294967296 * 4294967296"
    by (intro mult_strict_mono unat_u32_less) simp_all
  then have lt: "unat w * unat limit < 2 ^ 64" by simp
  then show ?thesis
    by (simp add: num_of_def unat_word_ariths unat_ucast_u32_u64)
qed

lemma unat_fraction_part: "unat (fraction_part num) = unat num mod 2 ^ 32"
  by (simp add: fraction_part_def unsigned_ucast_eq take_bit_eq_mod)

lemma unat_integer_part: "unat (integer_part num) = unat num div 2 ^ 32"
proof -
  have "unat num div 2 ^ 32 < 2 ^ 32"
    using unat_u64_less [of num] by (simp add: less_mult_imp_div_less)
  then have "take_bit 32 (unat num div 2 ^ 32) = unat num div 2 ^ 32"
    by (simp only: take_bit_nat_eq_self)
  then show ?thesis
    by (simp add: integer_part_def unsigned_ucast_eq unsigned_drop_bit_eq
        drop_bit_eq_div unat_div)
qed

lemma unat_neg: "limit \<noteq> 0 \<Longrightarrow> unat (- limit) = 2 ^ 32 - unat limit" for limit :: u32
proof -
  assume "limit \<noteq> 0"
  then have "0 < unat limit" by (simp add: unat_gt_0)
  then show ?thesis
    using unat_sub_if_size [of 0 limit] by (simp add: word_size)
qed

lemma unat_residue: "limit \<noteq> 0 \<Longrightarrow> unat (residue limit) = 2 ^ 32 mod unat limit"
proof -
  assume nz: "limit \<noteq> 0"
  have le: "unat limit \<le> 2 ^ 32"
    using unat_u32_less [of limit] by simp
  have "unat (residue limit) = (2 ^ 32 - unat limit) mod unat limit"
    by (simp add: residue_def unat_mod unat_neg nz)
  also have "\<dots> = 2 ^ 32 mod unat limit"
    using le by (simp add: le_mod_geq)
  finally show ?thesis .
qed

section \<open>Counting the accepted words\<close>

text \<open>
  Read as natural numbers, the accepted words with integer part \<open>V\<close> are the \<open>n\<close> whose
  multiple \<open>n * L\<close> falls in a window of length \<open>L * (B div L)\<close>, where \<open>L\<close> is the
  limit and \<open>B = 2^32\<close>; such a window holds exactly \<open>B div L\<close> multiples of \<open>L\<close>.
\<close>

lemma ceil_le_iff: "0 < L \<Longrightarrow> ((a + L - 1) div L \<le> w) = (a \<le> w * L)" for a L w :: nat
proof -
  assume pos: "0 < L"
  have "((a + L - 1) div L \<le> w) = ((a + L - 1) div L < Suc w)"
    by (simp only: less_Suc_eq_le)
  also have "\<dots> = (a + L - 1 < Suc w * L)"
    using pos by (simp only: div_less_iff_less_mult)
  also have "\<dots> = (a \<le> w * L)"
    using pos by auto
  finally show ?thesis .
qed

lemma multiples_in_window:
  "0 < L \<Longrightarrow> \<exists>c. {w. a \<le> w * L \<and> w * L < a + L * k} = {c ..< c + k}" for a L k :: nat
proof -
  assume pos: "0 < L"
  define m where "m = a + L - 1"
  define c where "c = m div L"
  have "a + L * k + L - 1 = m + k * L"
    using pos by (simp add: m_def algebra_simps)
  moreover have "(m + k * L) div L = c + k"
    using pos by (simp add: c_def)
  ultimately have shift: "(a + L * k + L - 1) div L = c + k"
    by (simp only: m_def)
  have lower: "(a \<le> w * L) = (c \<le> w)" for w
    using ceil_le_iff [OF pos, of a w] by (simp only: c_def m_def)
  have "(a + L * k \<le> w * L) = (c + k \<le> w)" for w
    using ceil_le_iff [OF pos, of "a + L * k" w] by (simp only: shift)
  then have upper: "(w * L < a + L * k) = (w < c + k)" for w
    by (simp only: linorder_not_le [symmetric])
  have "{w. a \<le> w * L \<and> w * L < a + L * k} = {c ..< c + k}"
    by (auto simp: upper lower)
  then show ?thesis ..
qed

lemma split_product:
  "0 < B \<Longrightarrow> (R \<le> p mod B \<and> p div B = V) = (B * V + R \<le> p \<and> p < B * V + B)" for p :: nat
proof -
  assume pos: "0 < B"
  have p: "p = B * (p div B) + p mod B" by simp
  have lt: "p mod B < B" using pos by simp
  show ?thesis
  proof (cases "p div B = V")
    case True
    then show ?thesis using p lt
      by (metis add_le_cancel_left nat_add_left_cancel_less)
  next
    case False
    then consider "p div B < V" | "V < p div B" by linarith
    then show ?thesis
    proof cases
      case 1
      then have "Suc (p div B) \<le> V" by simp
      then have "B * Suc (p div B) \<le> B * V" by (rule mult_le_mono2)
      then have "p < B * V" using p lt by (simp add: algebra_simps) (metis add.commute add_less_cancel_left less_le_trans p)
      then show ?thesis using False by simp
    next
      case 2
      then have "Suc V \<le> p div B" by simp
      then have "B * Suc V \<le> B * (p div B)" by (rule mult_le_mono2)
      then have "B * V + B \<le> p" using p by (simp add: algebra_simps) (metis le_add1 le_trans p)
      then show ?thesis using False by simp
    qed
  qed
qed

lemma accepted_count_nat:
  fixes B L V :: nat
  assumes L: "0 < L" and B: "0 < B" and V: "V < L"
  defines "N \<equiv> {n. B mod L \<le> (n * L) mod B \<and> (n * L) div B = V}"
  shows "card N = B div L" and "\<forall>n\<in>N. n < B"
proof -
  have window: "B * V + B = (B * V + B mod L) + L * (B div L)"
    by simp
  have N: "N = {n. B * V + B mod L \<le> n * L \<and> n * L < (B * V + B mod L) + L * (B div L)}"
    unfolding N_def using split_product [OF B, of "B mod L" _ V]
    by (simp only: window [symmetric])
  obtain c where "N = {c ..< c + B div L}"
    using multiples_in_window [OF L, of "B * V + B mod L" "B div L"] N by auto
  then show "card N = B div L" by simp
  show "\<forall>n\<in>N. n < B"
  proof
    fix n assume "n \<in> N"
    then have "n * L < B * V + B"
      unfolding N by (simp only: mem_Collect_eq window [symmetric])
    also have "\<dots> = B * Suc V" by simp
    also have "\<dots> \<le> B * L"
      using V by (intro mult_le_mono2) simp
    finally have "n * L < B * L" .
    then show "n < B" by simp
  qed
qed

lemma accepted_set_card:
  assumes nz: "limit \<noteq> 0" and v: "v < limit"
  shows "card {w. residue limit \<le> fraction_part (num_of w limit)
                  \<and> integer_part (num_of w limit) = v} = 2 ^ 32 div unat limit"
proof -
  define L where "L = unat limit"
  define V where "V = unat v"
  define B :: nat where "B = 2 ^ 32"
  define N where "N = {n. B mod L \<le> (n * L) mod B \<and> (n * L) div B = V}"
  define S where "S = {w. residue limit \<le> fraction_part (num_of w limit)
                  \<and> integer_part (num_of w limit) = v}"
  have L: "0 < L" using nz by (simp add: L_def unat_gt_0)
  have B: "0 < B" by (simp add: B_def)
  have V: "V < L" using v by (simp only: V_def L_def word_less_nat_alt)
  have r: "unat (residue limit) = B mod L"
    by (simp only: unat_residue [OF nz] B_def L_def)
  have f: "unat (fraction_part (num_of w limit)) = (unat w * L) mod B" for w
    by (simp only: unat_fraction_part unat_num_of B_def L_def)
  have i: "unat (integer_part (num_of w limit)) = (unat w * L) div B" for w
    by (simp only: unat_integer_part unat_num_of B_def L_def)
  have mem: "w \<in> S \<longleftrightarrow> unat w \<in> N" for w
    by (simp only: S_def N_def mem_Collect_eq word_le_nat_alt
        word_unat_eq_iff [of _ v] r f i V_def)
  have "unat ` S = N"
  proof (rule set_eqI, rule iffI)
    fix n assume "n \<in> unat ` S"
    then obtain w where "w \<in> S" "n = unat w" by blast
    then show "n \<in> N" by (simp only: mem)
  next
    fix n assume n: "n \<in> N"
    then have "n < B"
      using accepted_count_nat(2) [OF L B V] by (simp only: N_def)
    then have u: "unat (of_nat n :: u32) = n"
      by (simp add: B_def unat_of_nat)
    then have "of_nat n \<in> S"
      using n by (simp only: mem)
    then have "unat (of_nat n :: u32) \<in> unat ` S" by (rule imageI)
    then show "n \<in> unat ` S" by (simp only: u)
  qed
  moreover have "card (unat ` S) = card S"
    by (rule card_image) (simp add: inj_on_def word_unat_eq_iff)
  moreover have "card N = B div L"
    using accepted_count_nat(1) [OF L B V] by (simp only: N_def)
  ultimately have "card S = B div L" by simp
  then show ?thesis
    by (simp only: S_def B_def L_def)
qed

section \<open>The rejection loop\<close>

text \<open>
  The loop returns exactly at the first drawn word whose fraction part is not below
  the threshold; \<open>resample_Some\<close> is the converse, by the fixed-point induction of
  the partial function.
\<close>

lemma resample_accept:
  "\<not> fraction_part num < res \<Longrightarrow> resample src limit res num n = Some (num, n)"
  by (subst resample.simps) (simp only: if_False)

lemma resample_reject:
  "fraction_part num < res \<Longrightarrow>
     resample src limit res num n = resample src limit res (num_of (src n) limit) (Suc n)"
  by (subst resample.simps) (simp only: if_True arc4random_def fst_conv snd_conv)

lemma resample_first_accept:
  "\<forall>j<k. fraction_part (num_of (src (n + j)) limit) < res \<Longrightarrow>
   \<not> fraction_part (num_of (src (n + k)) limit) < res \<Longrightarrow>
   fraction_part num < res \<Longrightarrow>
   resample src limit res num n = Some (num_of (src (n + k)) limit, Suc (n + k))"
proof (induction k arbitrary: n num)
  case 0
  have acc: "\<not> fraction_part (num_of (src n) limit) < res"
    using "0.prems"(2) by simp
  have "resample src limit res num n
          = resample src limit res (num_of (src n) limit) (Suc n)"
    using "0.prems"(3) by (rule resample_reject)
  also have "\<dots> = Some (num_of (src n) limit, Suc n)"
    using acc by (rule resample_accept)
  finally show ?case by (simp only: add_0_right)
next
  case (Suc k)
  have "0 < Suc k" by (rule zero_less_Suc)
  with Suc.prems(1) have "fraction_part (num_of (src (n + 0)) limit) < res"
    by blast
  then have first: "fraction_part (num_of (src n) limit) < res"
    by (simp only: add_0_right)
  have rest: "\<forall>j<k. fraction_part (num_of (src (Suc n + j)) limit) < res"
  proof (intro allI impI)
    fix j assume "j < k"
    then have "Suc j < Suc k" by (simp only: Suc_less_eq)
    with Suc.prems(1) have "fraction_part (num_of (src (n + Suc j)) limit) < res"
      by blast
    then show "fraction_part (num_of (src (Suc n + j)) limit) < res"
      by (simp only: add_Suc_shift)
  qed
  have last: "\<not> fraction_part (num_of (src (Suc n + k)) limit) < res"
    using Suc.prems(2) by simp
  have "resample src limit res num n
          = resample src limit res (num_of (src n) limit) (Suc n)"
    using Suc.prems(3) by (rule resample_reject)
  also have "\<dots> = Some (num_of (src (Suc n + k)) limit, Suc (Suc n + k))"
    using rest last first by (rule Suc.IH)
  finally show ?case by (simp only: add_Suc_shift)
qed

lemma resample_Some:
  assumes ret: "resample src limit res num n = Some y"
  shows "\<not> fraction_part (fst y) < res \<and>
     (if fraction_part num < res
      then \<exists>k. y = (num_of (src (n + k)) limit, Suc (n + k)) \<and>
               (\<forall>j<k. fraction_part (num_of (src (n + j)) limit) < res)
      else y = (num, n))"
proof -
  let ?P = "\<lambda>(src::source) (limit::u32) (res::u32) (num::u64) (n::nat) (y::u64 \<times> nat).
     \<not> fraction_part (fst y) < res \<and>
     (if fraction_part num < res
      then \<exists>k. y = (num_of (src (n + k)) limit, Suc (n + k)) \<and>
               (\<forall>j<k. fraction_part (num_of (src (n + j)) limit) < res)
      else y = (num, n))"
  show ?thesis
  proof (rule resample.raw_induct [where P = ?P, OF _ ret])
    fix loop :: "source \<Rightarrow> u32 \<Rightarrow> u32 \<Rightarrow> u64 \<Rightarrow> nat \<Rightarrow> (u64 \<times> nat) option"
    fix src limit res num n y
    assume ih: "\<And>src limit res num n y.
        loop src limit res num n = Some y \<Longrightarrow> ?P src limit res num n y"
      and eq: "(if fraction_part num < res
        then loop src limit res (num_of (fst (arc4random src n)) limit)
               (snd (arc4random src n))
        else Some (num, n)) = Some y"
    show "?P src limit res num n y"
    proof (cases "fraction_part num < res")
      case False
      with eq have "y = (num, n)" by simp
      with False show ?thesis by simp
    next
      case True
      with eq have call: "loop src limit res (num_of (src n) limit) (Suc n) = Some y"
        by (simp add: arc4random_def)
      note step = ih [OF call]
      from step have acc: "\<not> fraction_part (fst y) < res" by (rule conjunct1)
      have "\<exists>k. y = (num_of (src (n + k)) limit, Suc (n + k)) \<and>
          (\<forall>j<k. fraction_part (num_of (src (n + j)) limit) < res)"
      proof (cases "fraction_part (num_of (src n) limit) < res")
        case False
        with step have "y = (num_of (src n) limit, Suc n)" by simp
        then have "y = (num_of (src (n + 0)) limit, Suc (n + 0)) \<and>
            (\<forall>j<0. fraction_part (num_of (src (n + j)) limit) < res)"
          by simp
        then show ?thesis ..
      next
        case rej: True
        with step have "\<exists>k. y = (num_of (src (Suc n + k)) limit, Suc (Suc n + k)) \<and>
                 (\<forall>j<k. fraction_part (num_of (src (Suc n + j)) limit) < res)"
          by simp
        then obtain k where y: "y = (num_of (src (Suc n + k)) limit, Suc (Suc n + k))"
          and before: "\<forall>j<k. fraction_part (num_of (src (Suc n + j)) limit) < res"
          by blast
        have all: "\<forall>j<Suc k. fraction_part (num_of (src (n + j)) limit) < res"
        proof (intro allI impI)
          fix j assume j: "j < Suc k"
          show "fraction_part (num_of (src (n + j)) limit) < res"
          proof (cases j)
            case 0
            with rej show ?thesis by simp
          next
            case (Suc i)
            with j have "i < k" by simp
            with before have "fraction_part (num_of (src (Suc n + i)) limit) < res"
              by blast
            with Suc show ?thesis by simp
          qed
        qed
        have "y = (num_of (src (n + Suc k)) limit, Suc (n + Suc k))"
          using y by simp
        with all have "y = (num_of (src (n + Suc k)) limit, Suc (n + Suc k)) \<and>
            (\<forall>j<Suc k. fraction_part (num_of (src (n + j)) limit) < res)"
          by (rule conjI [rotated])
        then show ?thesis ..
      qed
      with acc True show ?thesis by simp
    qed
  qed
qed

lemma resample_never:
  assumes all: "\<forall>j. fraction_part (num_of (src (n + j)) limit) < res"
    and rej: "fraction_part num < res"
  shows "resample src limit res num n = None"
proof (cases "resample src limit res num n")
  case None
  then show ?thesis .
next
  case (Some y)
  from resample_Some [OF Some] rej
  obtain k where y: "y = (num_of (src (n + k)) limit, Suc (n + k))"
    and acc: "\<not> fraction_part (fst y) < res"
    by auto
  from all have "fraction_part (num_of (src (n + k)) limit) < res" ..
  with y acc show ?thesis by simp
qed

section \<open>The call as a whole\<close>

lemma residue_less: "limit \<noteq> 0 \<Longrightarrow> residue limit < limit"
proof -
  assume "limit \<noteq> 0"
  then have "0 < limit" by (simp add: word_gt_0)
  then show ?thesis
    unfolding residue_def by (rule word_mod_less_divisor)
qed

lemma integer_part_less: "limit \<noteq> 0 \<Longrightarrow> integer_part (num_of w limit) < limit"
proof -
  assume "limit \<noteq> 0"
  then have pos: "0 < unat limit" by (simp add: unat_gt_0)
  have "unat w * unat limit < 4294967296 * unat limit"
    using unat_u32_less [of w] pos by (rule mult_less_mono1)
  then have "unat w * unat limit < unat limit * 2 ^ 32"
    by (simp only: mult.commute [of _ "unat limit"]) simp
  then have "unat w * unat limit div 2 ^ 32 < unat limit"
    by (simp only: div_less_iff_less_mult zero_less_power zero_less_numeral)
  then show ?thesis
    by (simp only: word_less_nat_alt unat_integer_part unat_num_of)
qed

lemma arc4random_uniform_unfold:
  "arc4random_uniform src limit n =
     (if slow_path limit (num_of (src n) limit)
      then (if limit = 0 then Some (Inl DivideByZero)
            else (case resample src limit (residue limit) (num_of (src n) limit) (Suc n) of
                    None \<Rightarrow> None
                  | Some (num', n2) \<Rightarrow> Some (Inr (integer_part num', n2))))
      else Some (Inr (integer_part (num_of (src n) limit), Suc n)))"
  by (simp only: arc4random_uniform_def arc4random_def Let_def fst_conv snd_conv)

text \<open>For a non-zero limit the fast path is a shortcut: the call is the loop.\<close>

lemma uniform_as_loop:
  assumes nz: "limit \<noteq> 0"
  shows "arc4random_uniform src limit n =
     (case resample src limit (residue limit) (num_of (src n) limit) (Suc n) of
        None \<Rightarrow> None
      | Some (num', n2) \<Rightarrow> Some (Inr (integer_part num', n2)))"
proof (cases "slow_path limit (num_of (src n) limit)")
  case True
  then show ?thesis
    using nz by (simp only: arc4random_uniform_unfold if_True if_False)
next
  case False
  then have "limit \<le> fraction_part (num_of (src n) limit)"
    by (simp only: slow_path_def not_less)
  with residue_less [OF nz]
  have "residue limit < fraction_part (num_of (src n) limit)"
    by (rule less_le_trans)
  then have "\<not> fraction_part (num_of (src n) limit) < residue limit"
    by (rule less_not_sym)
  then have "resample src limit (residue limit) (num_of (src n) limit) (Suc n)
      = Some (num_of (src n) limit, Suc n)"
    by (rule resample_accept)
  with False show ?thesis
    by (simp only: arc4random_uniform_unfold if_False option.case prod.case)
qed

lemma uniform_first_accept:
  assumes nz: "limit \<noteq> 0"
    and before: "\<forall>j<k. fraction_part (num_of (src (n + j)) limit) < residue limit"
    and at: "\<not> fraction_part (num_of (src (n + k)) limit) < residue limit"
  shows "arc4random_uniform src limit n
           = Some (Inr (integer_part (num_of (src (n + k)) limit), Suc (n + k)))"
proof (cases k)
  case 0
  with at have "\<not> fraction_part (num_of (src n) limit) < residue limit" by simp
  then have "resample src limit (residue limit) (num_of (src n) limit) (Suc n)
      = Some (num_of (src n) limit, Suc n)"
    by (rule resample_accept)
  with 0 show ?thesis by (simp add: uniform_as_loop [OF nz])
next
  case (Suc k')
  have first: "fraction_part (num_of (src n) limit) < residue limit"
    using before Suc by force
  have rest: "\<forall>j<k'. fraction_part (num_of (src (Suc n + j)) limit) < residue limit"
  proof (intro allI impI)
    fix j assume "j < k'"
    then have "Suc j < k" using Suc by simp
    with before have "fraction_part (num_of (src (n + Suc j)) limit) < residue limit"
      by blast
    then show "fraction_part (num_of (src (Suc n + j)) limit) < residue limit"
      by simp
  qed
  have last: "\<not> fraction_part (num_of (src (Suc n + k')) limit) < residue limit"
    using at Suc by simp
  have "resample src limit (residue limit) (num_of (src n) limit) (Suc n)
      = Some (num_of (src (Suc n + k')) limit, Suc (Suc n + k'))"
    using rest last first by (rule resample_first_accept)
  with Suc show ?thesis by (simp add: uniform_as_loop [OF nz])
qed

lemma uniform_never:
  assumes nz: "limit \<noteq> 0"
    and all: "\<forall>j. fraction_part (num_of (src (n + j)) limit) < residue limit"
  shows "arc4random_uniform src limit n = None"
proof -
  from all have "fraction_part (num_of (src (n + 0)) limit) < residue limit" ..
  then have first: "fraction_part (num_of (src n) limit) < residue limit" by simp
  have rest: "\<forall>j. fraction_part (num_of (src (Suc n + j)) limit) < residue limit"
  proof
    fix j
    from all have "fraction_part (num_of (src (n + Suc j)) limit) < residue limit" ..
    then show "fraction_part (num_of (src (Suc n + j)) limit) < residue limit" by simp
  qed
  have "resample src limit (residue limit) (num_of (src n) limit) (Suc n) = None"
    using rest first by (rule resample_never)
  then show ?thesis by (simp add: uniform_as_loop [OF nz])
qed

lemma uniform_Some:
  assumes nz: "limit \<noteq> 0" and ret: "arc4random_uniform src limit n = Some r"
  shows "\<exists>k. r = Inr (integer_part (num_of (src (n + k)) limit), Suc (n + k)) \<and>
             \<not> fraction_part (num_of (src (n + k)) limit) < residue limit \<and>
             (\<forall>j<k. fraction_part (num_of (src (n + j)) limit) < residue limit)"
proof (cases "\<forall>j. fraction_part (num_of (src (n + j)) limit) < residue limit")
  case True
  with nz have "arc4random_uniform src limit n = None" by (rule uniform_never)
  with ret show ?thesis by simp
next
  case False
  then have ex: "\<exists>k. \<not> fraction_part (num_of (src (n + k)) limit) < residue limit"
    by simp
  define k where "k = (LEAST k. \<not> fraction_part (num_of (src (n + k)) limit) < residue limit)"
  have at: "\<not> fraction_part (num_of (src (n + k)) limit) < residue limit"
    unfolding k_def using ex by (rule LeastI_ex)
  have before: "\<forall>j<k. fraction_part (num_of (src (n + j)) limit) < residue limit"
  proof (intro allI impI)
    fix j assume "j < k"
    then have "\<not> \<not> fraction_part (num_of (src (n + j)) limit) < residue limit"
      unfolding k_def by (rule not_less_Least)
    then show "fraction_part (num_of (src (n + j)) limit) < residue limit" by simp
  qed
  have "arc4random_uniform src limit n
           = Some (Inr (integer_part (num_of (src (n + k)) limit), Suc (n + k)))"
    using nz before at by (rule uniform_first_accept)
  with ret have "r = Inr (integer_part (num_of (src (n + k)) limit), Suc (n + k))"
    by simp
  with at before show ?thesis by blast
qed

section \<open>The first draw, and special limits\<close>

lemma first_draw_iff:
  assumes nz: "limit \<noteq> 0"
  shows "(arc4random_uniform src limit n = Some (Inr (v, Suc n))) =
         (residue limit \<le> fraction_part (num_of (src n) limit) \<and>
          integer_part (num_of (src n) limit) = v)"
proof
  assume ret: "arc4random_uniform src limit n = Some (Inr (v, Suc n))"
  from uniform_Some [OF nz ret]
  obtain k where r: "Inr (v, Suc n) = (Inr (integer_part (num_of (src (n + k)) limit), Suc (n + k))
        :: error + u32 \<times> nat)"
    and acc: "\<not> fraction_part (num_of (src (n + k)) limit) < residue limit"
    by blast
  from r have "k = 0" and "v = integer_part (num_of (src (n + k)) limit)" by simp_all
  with acc show "residue limit \<le> fraction_part (num_of (src n) limit) \<and>
          integer_part (num_of (src n) limit) = v"
    by (simp add: not_less)
next
  assume acc: "residue limit \<le> fraction_part (num_of (src n) limit) \<and>
          integer_part (num_of (src n) limit) = v"
  then have at: "\<not> fraction_part (num_of (src (n + 0)) limit) < residue limit"
    by (simp add: not_less)
  have before: "\<forall>j<0. fraction_part (num_of (src (n + j)) limit) < residue limit"
    by simp
  from uniform_first_accept [OF nz before at] acc
  show "arc4random_uniform src limit n = Some (Inr (v, Suc n))" by simp
qed

lemma num_of_zero_limit: "num_of w 0 = 0"
  by (simp add: num_of_def)

lemma uniform_limit_zero: "arc4random_uniform src 0 n = Some (Inr (0, Suc n))"
proof -
  have "\<not> slow_path 0 (num_of (src n) 0)"
    by (simp add: slow_path_def)
  moreover have "integer_part (num_of (src n) 0) = 0"
    by (simp add: num_of_zero_limit integer_part_def)
  ultimately show ?thesis
    by (simp only: arc4random_uniform_unfold if_False)
qed

lemma unat_two_power: "k < 32 \<Longrightarrow> unat (2 ^ k :: u32) = 2 ^ k"
proof -
  assume "k < 32"
  then have "(2::nat) ^ k < 2 ^ 32"
    by (rule power_strict_increasing) simp
  then show ?thesis
    using unat_of_nat [of "2 ^ k", where ?'a = 32] by simp
qed

lemma two_power_nonzero: "k < 32 \<Longrightarrow> (2 ^ k :: u32) \<noteq> 0"
proof -
  assume "k < 32"
  then have "unat (2 ^ k :: u32) = 2 ^ k" by (rule unat_two_power)
  then have "0 < unat (2 ^ k :: u32)" by simp
  then show ?thesis by (simp add: unat_gt_0)
qed

lemma residue_two_power: "k < 32 \<Longrightarrow> residue (2 ^ k) = 0"
proof -
  assume k: "k < 32"
  have "(2::nat) ^ 32 = 2 ^ (32 - k) * 2 ^ k"
    using k by (simp flip: power_add)
  then have "(2::nat) ^ 32 mod 2 ^ k = 0"
    by (simp only: mod_mult_self2_is_0)
  then have "unat (residue (2 ^ k)) = 0"
    using unat_residue [OF two_power_nonzero [OF k]] unat_two_power [OF k] by simp
  then show ?thesis by (simp add: unat_eq_zero)
qed

lemma residue_one: "residue 1 = 0"
  by (simp add: residue_def)

section \<open>The claims\<close>

text \<open>
  C1. For every limit in [1, 2^32 - 1] and every value \<open>v\<close> below the limit, the 32-bit
  words \<open>w\<close> whose fraction part of \<open>w * limit\<close> is at least \<open>residue\<close> and whose
  integer part is \<open>v\<close> number exactly \<open>2^32 div limit\<close>: every value has the same
  number of accepted words. These are exactly the words on which a call returns
  \<open>v\<close> at its first draw.
\<close>

theorem C1_equal_share:
  assumes "limit \<noteq> 0" and "v < limit"
  shows "card {w. residue limit \<le> fraction_part (num_of w limit)
                  \<and> integer_part (num_of w limit) = v} = 2 ^ 32 div unat limit
       \<and> {w. arc4random_uniform (\<lambda>i. w) limit n = Some (Inr (v, Suc n))}
           = {w. residue limit \<le> fraction_part (num_of w limit)
                  \<and> integer_part (num_of w limit) = v}"
proof
  show "card {w. residue limit \<le> fraction_part (num_of w limit)
                  \<and> integer_part (num_of w limit) = v} = 2 ^ 32 div unat limit"
    using assms by (rule accepted_set_card)
  show "{w. arc4random_uniform (\<lambda>i. w) limit n = Some (Inr (v, Suc n))}
           = {w. residue limit \<le> fraction_part (num_of w limit)
                  \<and> integer_part (num_of w limit) = v}"
    by (simp only: first_draw_iff [OF assms(1)])
qed

theorem C1_equal_share_witness:
  "card {w. residue 3 \<le> fraction_part (num_of w 3) \<and> integer_part (num_of w 3) = 1}
     = 1431655765"
proof -
  have nz: "(3::u32) \<noteq> 0" by simp
  have v: "(1::u32) < 3" by simp
  from C1_equal_share [OF nz v, of 0] show ?thesis by simp
qed

text \<open>
  C2. For every non-zero limit and every source, a call that returns returns a value
  strictly below the limit (and it never traps); and it does return as soon as the
  source supplies one accepted word.
\<close>

theorem C2_result_below_limit:
  assumes "limit \<noteq> 0"
  shows "(\<forall>r. arc4random_uniform src limit n = Some r \<longrightarrow>
            (\<exists>v n'. r = Inr (v, n') \<and> v < limit))
       \<and> ((\<exists>k. residue limit \<le> fraction_part (num_of (src (n + k)) limit)) \<longrightarrow>
            (\<exists>v n'. arc4random_uniform src limit n = Some (Inr (v, n')) \<and> v < limit))"
proof -
  have part: "\<exists>v n'. r = Inr (v, n') \<and> v < limit"
    if "arc4random_uniform src limit n = Some r" for r
  proof -
    from uniform_Some [OF assms that]
    obtain k where "r = Inr (integer_part (num_of (src (n + k)) limit), Suc (n + k))"
      by blast
    with integer_part_less [OF assms] show ?thesis by blast
  qed
  have total: "\<exists>v n'. arc4random_uniform src limit n = Some (Inr (v, n')) \<and> v < limit"
    if ex: "\<exists>k. residue limit \<le> fraction_part (num_of (src (n + k)) limit)"
  proof -
    have "\<not> (\<forall>j. fraction_part (num_of (src (n + j)) limit) < residue limit)"
      using ex by (simp add: not_less)
    then have ex': "\<exists>k. \<not> fraction_part (num_of (src (n + k)) limit) < residue limit"
      by simp
    define k where
      "k = (LEAST k. \<not> fraction_part (num_of (src (n + k)) limit) < residue limit)"
    have at: "\<not> fraction_part (num_of (src (n + k)) limit) < residue limit"
      unfolding k_def using ex' by (rule LeastI_ex)
    have before: "\<forall>j<k. fraction_part (num_of (src (n + j)) limit) < residue limit"
    proof (intro allI impI)
      fix j assume "j < k"
      then have "\<not> \<not> fraction_part (num_of (src (n + j)) limit) < residue limit"
        unfolding k_def by (rule not_less_Least)
      then show "fraction_part (num_of (src (n + j)) limit) < residue limit" by simp
    qed
    from uniform_first_accept [OF assms before at] integer_part_less [OF assms]
    show ?thesis by blast
  qed
  from part total show ?thesis by blast
qed

theorem C2_result_below_limit_witness:
  "\<exists>v n'. arc4random_uniform (replay [0, 2147483648] 0) 3 0 = Some (Inr (v, n')) \<and> v < 3"
proof -
  have nz: "(3::u32) \<noteq> 0" by simp
  have "residue 3 \<le> fraction_part (num_of (replay [0, 2147483648] 0 (0 + 1)) 3)"
    by (simp add: residue_def fraction_part_def num_of_def replay_def)
  then have "\<exists>k. residue 3 \<le> fraction_part (num_of (replay [0, 2147483648] 0 (0 + k)) 3)" ..
  with C2_result_below_limit [OF nz, of "replay [0, 2147483648] 0" 0]
  show ?thesis by blast
qed

text \<open>
  C3 (as the code has it). A call with limit 0 surfaces no error condition: it does
  not trap on a division by zero and does not loop, but returns the value 0.
\<close>

theorem C3_limit_zero_no_error:
  "\<not> surfaces_error (arc4random_uniform src 0 n)
   \<and> returned_value (arc4random_uniform src 0 n) = Some 0"
  by (simp add: uniform_limit_zero surfaces_error_def returned_value_def)

text \<open>
  The claim as the specification states it, that a call with limit 0 fails with an
  explicit error, is false for the source that always supplies the word 7.
\<close>

theorem C3_limit_zero_counterexample:
  "\<not> surfaces_error (arc4random_uniform (replay [] 7) 0 0)
   \<and> arc4random_uniform (replay [] 7) 0 0 = Some (Inr (0, 1))"
  by (simp add: uniform_limit_zero surfaces_error_def)

text \<open>
  C4. For every non-zero limit, the 32-bit computation \<open>(uint32_t)(-limit) % limit\<close>
  is the remainder of \<open>2^32\<close> divided by the limit.
\<close>

theorem C4_residue_is_remainder:
  "limit \<noteq> 0 \<Longrightarrow> unat (residue limit) = 2 ^ 32 mod unat limit"
  by (rule unat_residue)

theorem C4_residue_is_remainder_witness:
  "unat (residue 10) = 6 \<and> (2::nat) ^ 32 mod 10 = 6"
proof -
  have nz: "(10::u32) \<noteq> 0" by simp
  from C4_residue_is_remainder [OF nz] show ?thesis by simp
qed

text \<open>
  C5 (as the code has it). For every limit \<open>2^k\<close> with \<open>k < 32\<close>, \<open>residue\<close> is 0, the
  rejection loop returns at once whatever \<open>num\<close> it is entered with, and the call
  consumes exactly one word and returns the integer part of its product.
\<close>

theorem C5_power_of_two_single_draw:
  assumes "k < 32"
  shows "residue (2 ^ k) = 0
       \<and> resample src (2 ^ k) (residue (2 ^ k)) num m = Some (num, m)
       \<and> arc4random_uniform src (2 ^ k) n
           = Some (Inr (integer_part (num_of (src n) (2 ^ k)), Suc n))"
proof -
  have res: "residue (2 ^ k) = 0"
    using assms by (rule residue_two_power)
  have nz: "(2 ^ k :: u32) \<noteq> 0"
    using assms by (rule two_power_nonzero)
  have acc: "\<not> fraction_part x < residue (2 ^ k)" for x
    by (simp add: res)
  have loop: "resample src (2 ^ k) (residue (2 ^ k)) num m = Some (num, m)"
    using acc by (rule resample_accept)
  have before: "\<forall>j<0. fraction_part (num_of (src (n + j)) (2 ^ k)) < residue (2 ^ k)"
    by simp
  have "arc4random_uniform src (2 ^ k) n
      = Some (Inr (integer_part (num_of (src (n + 0)) (2 ^ k)), Suc (n + 0)))"
    using nz before acc by (rule uniform_first_accept)
  then have call: "arc4random_uniform src (2 ^ k) n
      = Some (Inr (integer_part (num_of (src n) (2 ^ k)), Suc n))"
    by simp
  from res loop call show ?thesis by (intro conjI)
qed

theorem C5_power_of_two_single_draw_witness:
  "residue 65536 = 0
   \<and> arc4random_uniform (replay [2147549184] 0) 65536 0 = Some (Inr (32769, 1))"
proof -
  have k: "(16::nat) < 32" by simp
  from C5_power_of_two_single_draw [OF k, of "replay [2147549184] 0" 0 0 0]
  show ?thesis
    by (simp add: replay_def integer_part_def num_of_def)
qed

text \<open>
  The claim as stated also says that the fast path is always taken. It is not: for
  the limit \<open>2^16\<close> and the word 0 the guard of the \<open>if\<close> holds, so the slow path
  is entered (and \<open>residue\<close> is computed), although no further word is drawn.
\<close>

theorem C5_fast_path_counterexample:
  "slow_path (2 ^ 16) (num_of 0 (2 ^ 16))"
  by (simp add: slow_path_def fraction_part_def num_of_def)

text \<open>
  C6. For limit 3 and a source whose first word has its fraction part below
  \<open>residue\<close> (the word 0 does) and whose second word has not, the call consumes
  exactly two words and returns the integer part of the second word's product.
\<close>

theorem C6_forced_rejection:
  assumes "fraction_part (num_of (src n) 3) < residue 3"
    and "residue 3 \<le> fraction_part (num_of (src (Suc n)) 3)"
  shows "arc4random_uniform src 3 n
           = Some (Inr (integer_part (num_of (src (Suc n)) 3), Suc (Suc n)))"
proof -
  have nz: "(3::u32) \<noteq> 0" by simp
  have before: "\<forall>j<Suc 0. fraction_part (num_of (src (n + j)) 3) < residue 3"
    using assms(1) by simp
  have at: "\<not> fraction_part (num_of (src (n + Suc 0)) 3) < residue 3"
    using assms(2) by (simp add: not_less)
  from uniform_first_accept [OF nz before at] show ?thesis by simp
qed

theorem C6_forced_rejection_witness:
  "fraction_part (num_of 0 3) < residue 3
   \<and> arc4random_uniform (replay [0, 2147483648] 9) 3 0 = Some (Inr (1, 2))"
proof -
  have w0: "replay [0, 2147483648] 9 0 = 0"
    and w1: "replay [0, 2147483648] 9 (Suc 0) = 2147483648"
    by (simp_all add: replay_def)
  have rej: "fraction_part (num_of 0 3) < residue 3"
    by (simp add: residue_def fraction_part_def num_of_def)
  have acc: "residue 3 \<le> fraction_part (num_of 2147483648 3)"
    by (simp add: residue_def fraction_part_def num_of_def)
  have val: "integer_part (num_of 2147483648 3) = 1"
    by (simp add: integer_part_def num_of_def)
  have first: "fraction_part (num_of (replay [0, 2147483648] 9 0) 3) < residue 3"
    using rej by (simp only: w0)
  have second: "residue 3 \<le> fraction_part (num_of (replay [0, 2147483648] 9 (Suc 0)) 3)"
    using acc by (simp only: w1)
  from C6_forced_rejection [OF first second]
  have "arc4random_uniform (replay [0, 2147483648] 9) 3 0 = Some (Inr (1, Suc (Suc 0)))"
    by (simp only: w1 val)
  with rej show ?thesis by (simp add: numeral_2_eq_2)
qed

text \<open>C7. For limit 1 and every source the call returns 0.\<close>

theorem C7_limit_one_returns_zero:
  "arc4random_uniform src 1 n = Some (Inr (0, Suc n))"
proof -
  have nz: "(1::u32) \<noteq> 0" by simp
  have acc: "\<not> fraction_part (num_of (src (n + 0)) 1) < residue 1"
    by (simp add: residue_one)
  have before: "\<forall>j<0. fraction_part (num_of (src (n + j)) 1) < residue 1"
    by simp
  have "integer_part (num_of (src n) 1) < 1"
    using nz by (rule integer_part_less)
  then have zero: "integer_part (num_of (src n) 1) = 0"
    by simp
  from uniform_first_accept [OF nz before acc] zero show ?thesis by simp
qed

text \<open>
  C8. For every non-zero limit and every infinite stream of words: if the word at
  position \<open>n + k\<close> is the first one from position \<open>n\<close> on whose fraction part is at
  least \<open>residue\<close>, the call started at \<open>n\<close> returns the integer part of that word's
  product and has then drawn \<open>k + 1\<close> words; if no word from position \<open>n\<close> on has
  this property, the call never returns.
\<close>

theorem C8_returns_first_accepted_or_never:
  assumes "limit \<noteq> 0"
  shows "((\<forall>j<k. fraction_part (num_of (src (n + j)) limit) < residue limit)
          \<and> residue limit \<le> fraction_part (num_of (src (n + k)) limit)
          \<longrightarrow> arc4random_uniform src limit n
                = Some (Inr (integer_part (num_of (src (n + k)) limit), Suc (n + k))))
       \<and> ((\<forall>j. fraction_part (num_of (src (n + j)) limit) < residue limit)
          \<longrightarrow> arc4random_uniform src limit n = None)"
proof (intro conjI impI)
  assume h: "(\<forall>j<k. fraction_part (num_of (src (n + j)) limit) < residue limit)
          \<and> residue limit \<le> fraction_part (num_of (src (n + k)) limit)"
  then have before: "\<forall>j<k. fraction_part (num_of (src (n + j)) limit) < residue limit"
    by (rule conjunct1)
  from h have at: "\<not> fraction_part (num_of (src (n + k)) limit) < residue limit"
    by (simp add: not_less)
  from assms before at
  show "arc4random_uniform src limit n
          = Some (Inr (integer_part (num_of (src (n + k)) limit), Suc (n + k)))"
    by (rule uniform_first_accept)
next
  assume "\<forall>j. fraction_part (num_of (src (n + j)) limit) < residue limit"
  with assms show "arc4random_uniform src limit n = None"
    by (rule uniform_never)
qed

theorem C8_returns_first_accepted_or_never_witness:
  "arc4random_uniform (replay [0, 0, 2147483648] 0) 3 0 = Some (Inr (1, 3))
   \<and> arc4random_uniform (replay [] 0) 3 0 = None"
proof -
  have nz: "(3::u32) \<noteq> 0" by simp
  have rej: "fraction_part (num_of 0 3) < residue 3"
    by (simp add: residue_def fraction_part_def num_of_def)
  have acc: "residue 3 \<le> fraction_part (num_of 2147483648 3)"
    by (simp add: residue_def fraction_part_def num_of_def)
  have val: "integer_part (num_of 2147483648 3) = 1"
    by (simp add: integer_part_def num_of_def)
  have w2: "replay [0, 0, 2147483648] 0 (0 + Suc (Suc 0)) = 2147483648"
    by (simp add: replay_def)
  have before: "\<forall>j<Suc (Suc 0).
      fraction_part (num_of (replay [0, 0, 2147483648] 0 (0 + j)) 3) < residue 3"
    using rej by (simp add: replay_def less_Suc_eq)
  have at: "residue 3 \<le> fraction_part
      (num_of (replay [0, 0, 2147483648] 0 (0 + Suc (Suc 0))) 3)"
    using acc by (simp only: w2)
  have never: "\<forall>j. fraction_part (num_of (replay [] 0 (0 + j)) 3) < residue 3"
    using rej by (simp add: replay_def)
  from C8_returns_first_accepted_or_never
    [OF nz, of "Suc (Suc 0)" "replay [0, 0, 2147483648] 0" 0] before at
  have "arc4random_uniform (replay [0, 0, 2147483648] 0) 3 0
      = Some (Inr (integer_part (num_of (replay [0, 0, 2147483648] 0 (0 + Suc (Suc 0))) 3),
          Suc (0 + Suc (Suc 0))))"
    by blast
  then have one: "arc4random_uniform (replay [0, 0, 2147483648] 0) 3 0 = Some (Inr (1, 3))"
    by (simp only: w2 val) (simp add: numeral_3_eq_3)
  from C8_returns_first_accepted_or_never [OF nz, of _ "replay [] 0" 0] never
  have two: "arc4random_uniform (replay [] 0) 3 0 = None"
    by blast
  from one two show ?thesis ..
qed

text \<open>
  C9. With limit 0 the guard of the \<open>if\<close> is false for every word, so the modulo is
  never executed: the call consumes exactly one word and returns 0.
\<close>

theorem C9_limit_zero_one_draw:
  "arc4random_uniform src 0 n = Some (Inr (0, Suc n))
   \<and> \<not> slow_path 0 (num_of (src n) 0)
   \<and> arc4random_uniform src 0 n \<noteq> Some (Inl DivideByZero)"
  by (simp add: uniform_limit_zero slow_path_def)

text \<open>
  C10. For every non-zero limit, \<open>residue\<close> is strictly below the limit; so a
  product that the approximate test of the fast path accepts (fraction part not
  below the limit) also passes the exact test (fraction part not below \<open>residue\<close>).
\<close>

theorem C10_fast_path_sound:
  assumes "limit \<noteq> 0"
  shows "residue limit < limit
       \<and> (\<not> slow_path limit num \<longrightarrow> residue limit \<le> fraction_part num)"
proof (intro conjI impI)
  show less: "residue limit < limit"
    using assms by (rule residue_less)
  assume "\<not> slow_path limit num"
  then have "limit \<le> fraction_part num"
    by (simp add: slow_path_def not_less)
  with less have "residue limit < fraction_part num"
    by (rule less_le_trans)
  then show "residue limit \<le> fraction_part num"
    by (rule less_imp_le)
qed

theorem C10_fast_path_sound_witness:
  "residue 10 < 10 \<and> \<not> slow_path 10 (num_of 7 10)
   \<and> residue 10 \<le> fraction_part (num_of 7 10)"
proof -
  have nz: "(10::u32) \<noteq> 0" by simp
  have fast: "\<not> slow_path 10 (num_of 7 10)"
    by (simp add: slow_path_def fraction_part_def num_of_def)
  from C10_fast_path_sound [OF nz, of "num_of 7 10"] fast show ?thesis by blast
qed

end
